theory Spec2Isabelle
  imports Complex_Main "HOL-Library.Word" "HOL-Library.Multiset" "HOL-Library.Log_Nat"
begin

section \<open>Monte Carlo estimation of pi: the notebook \<open>Use_GPUs_with_Apache_Beam\<close>\<close>

text \<open>
  The notebook estimates pi four ways: a native Python loop, the same loop compiled by
  numba, a CUDA kernel followed by a reduction, and an Apache Beam pipeline around the
  kernel. The development below embeds each of them.

  Conventions of the embedding.
  \<^item> Python integers are \<open>int\<close>; \<open>//\<close> is \<open>div\<close> (both round towards minus infinity)
    and raises \<open>ZeroDivisionError\<close> on a zero divisor, which is written out.
  \<^item> A floating-point value is the rational number it denotes, and every floating-point
    operation is the exact operation followed by rounding to the nearest value of the
    format, ties to the even significand: 53 significant bits for Python's \<open>float\<close> and
    numba's \<open>float64\<close>, 24 for \<open>float32\<close>. The range of the exponent is not modelled
    (no overflow to infinity, no subnormal numbers): no comparison with 1.0 in the code
    depends on it, and an estimate leaves the range only for integers of more than a
    thousand bits.
  \<^item> The random-number generators belong to the Python library and to numba, not to
    this repository. A generator is a parameter: a step function that maps a generator
    state to the value drawn and the next state.
\<close>

datatype error = ZeroDivisionError

subsection \<open>Floating-point rounding\<close>

text \<open>
  \<open>ilog2 q\<close> is the exponent of the leading bit of a positive rational, computed from
  the bit lengths of its numerator and denominator. \<open>rne p q\<close> rounds \<open>q\<close> to \<open>p\<close>
  significant bits.
\<close>

definition round_half_even :: "rat \<Rightarrow> int" where
  "round_half_even m =
     (let f = \<lfloor>m\<rfloor>; r = m - of_int f
      in if r < 1 / 2 \<or> (r = 1 / 2 \<and> even f) then f else f + 1)"

definition ilog2 :: "rat \<Rightarrow> int" where
  "ilog2 q =
     (let (a, b) = quotient_of q; d = bitlen a - bitlen b
      in if 2 powi d \<le> q then d else d - 1)"

definition rne :: "nat \<Rightarrow> rat \<Rightarrow> rat" where
  "rne p q =
     (if q = 0 then 0
      else let e = ilog2 \<bar>q\<bar> - (int p - 1)
           in sgn q * of_int (round_half_even (\<bar>q\<bar> / 2 powi e)) * 2 powi e)"

definition float64 :: "rat \<Rightarrow> rat" where
  "float64 q = rne 53 q"

definition float32 :: "rat \<Rightarrow> rat" where
  "float32 q = rne 24 q"

type_synonym 'g draw = "'g \<Rightarrow> rat \<times> 'g"

subsection \<open>Native Python and jitted machine code\<close>

text \<open>
  \<^verbatim>\<open>
  def python_cpu_monte_carlo_pi(sample_size):
      acc = 0
      for i in range(sample_size):
          x = random.random()
          y = random.random()
          if (x * x + y * y) < 1.0:
              acc += 1
      return 4.0 * acc / sample_size
  \<close>
  The state of the module-level generator \<open>random\<close> is threaded through the call. The
  first argument of the loop is the number of iterations that remain. The draws are
  doubles, so the two products and the sum are rounded to double; in the last line the
  counter and \<open>sample_size\<close> are converted to double, and the product and the quotient
  are rounded.
\<close>

fun python_loop :: "'g draw \<Rightarrow> nat \<Rightarrow> int \<Rightarrow> 'g \<Rightarrow> int \<times> 'g" where
  "python_loop random 0 acc g = (acc, g)"
| "python_loop random (Suc k) acc g =
     (let (x, g1) = random g;
          (y, g2) = random g1
      in python_loop random k
           (if float64 (float64 (x * x) + float64 (y * y)) < 1 then acc + 1 else acc) g2)"

definition python_cpu_monte_carlo_pi :: "'g draw \<Rightarrow> int \<Rightarrow> 'g \<Rightarrow> (error + rat) \<times> 'g" where
  "python_cpu_monte_carlo_pi random sample_size g =
     (let (acc, g') = python_loop random (nat sample_size) 0 g
      in if sample_size = 0 then (Inl ZeroDivisionError, g')
         else (Inr (float64 (float64 (4 * float64 (of_int acc))
                              / float64 (of_int sample_size))), g'))"

text \<open>
  The same body under \<open>@jit(nopython=True)\<close>: numba types \<open>sample_size\<close>, \<open>i\<close> and
  \<open>acc\<close> as 64-bit signed machine integers, so \<open>acc += 1\<close> wraps, and its default
  error model raises \<open>ZeroDivisionError\<close> as Python does.
\<close>

fun machine_code_loop :: "'g draw \<Rightarrow> nat \<Rightarrow> 64 word \<Rightarrow> 'g \<Rightarrow> 64 word \<times> 'g" where
  "machine_code_loop random 0 acc g = (acc, g)"
| "machine_code_loop random (Suc k) acc g =
     (let (x, g1) = random g;
          (y, g2) = random g1
      in machine_code_loop random k
           (if float64 (float64 (x * x) + float64 (y * y)) < 1 then acc + 1 else acc) g2)"

definition machine_code_cpu_monte_carlo_pi ::
    "'g draw \<Rightarrow> 64 word \<Rightarrow> 'g \<Rightarrow> (error + rat) \<times> 'g" where
  "machine_code_cpu_monte_carlo_pi random sample_size g =
     (let (acc, g') = machine_code_loop random (nat (sint sample_size)) 0 g
      in if sample_size = 0 then (Inl ZeroDivisionError, g')
         else (Inr (float64 (float64 (4 * float64 (of_int (sint acc)))
                              / float64 (of_int (sint sample_size)))), g'))"

subsection \<open>The CUDA kernel\<close>

text \<open>
  \<open>xoroshiro128p_uniform_float32(rng_states, pos)\<close> draws from the generator state
  stored at index \<open>pos\<close> of the array and stores the advanced state back there.
\<close>

definition xoroshiro128p_uniform_float32 :: "'g draw \<Rightarrow> 'g list \<Rightarrow> nat \<Rightarrow> rat \<times> 'g list" where
  "xoroshiro128p_uniform_float32 step states index =
     (let (v, g') = step (states ! index) in (v, states[index := g']))"

text \<open>
  \<open>create_xoroshiro128p_states(n, seed)\<close> returns an array of \<open>n\<close> generator states;
  the state at each index is derived from the seed and the index by \<open>init\<close>.
\<close>

definition create_xoroshiro128p_states :: "(int \<Rightarrow> nat \<Rightarrow> 'g) \<Rightarrow> nat \<Rightarrow> int \<Rightarrow> 'g list" where
  "create_xoroshiro128p_states init n seed = map (init seed) [0..<n]"

text \<open>
  \<^verbatim>\<open>
  @cuda.jit
  def gpu_monte_carlo_pi_sampler(rng_states, sub_sample_size, acc):
      pos = cuda.grid(1)
      if pos < acc.size:
          sub_acc = 0
          for i in range(sub_sample_size):
              x = xoroshiro128p_uniform_float32(rng_states, pos)
              y = xoroshiro128p_uniform_float32(rng_states, pos)
              if (x * x + y * y) < 1.0:
                  sub_acc += 1
          acc[pos] = sub_acc
  \<close>
  The kernel is the code of one thread; \<open>pos\<close> is the thread's position in the grid. The
  two arrays are mutated in place, so the thread maps the pair of arrays to the updated
  pair. The draws are \<open>float32\<close> values, so the two products and the sum are rounded to
  \<open>float32\<close>, each on its own, as the source writes them. \<open>acc\<close> is an array of
  \<open>float32\<close>: the store converts the integer counter.
\<close>

fun gpu_loop :: "'g draw \<Rightarrow> nat \<Rightarrow> nat \<Rightarrow> int \<Rightarrow> 'g list \<Rightarrow> int \<times> 'g list" where
  "gpu_loop step pos 0 sub_acc rng_states = (sub_acc, rng_states)"
| "gpu_loop step pos (Suc k) sub_acc rng_states =
     (let (x, s1) = xoroshiro128p_uniform_float32 step rng_states pos;
          (y, s2) = xoroshiro128p_uniform_float32 step s1 pos
      in gpu_loop step pos k
           (if float32 (float32 (x * x) + float32 (y * y)) < 1 then sub_acc + 1 else sub_acc)
           s2)"

definition gpu_monte_carlo_pi_sampler ::
    "'g draw \<Rightarrow> int \<Rightarrow> nat \<Rightarrow> 'g list \<times> rat list \<Rightarrow> 'g list \<times> rat list" where
  "gpu_monte_carlo_pi_sampler step sub_sample_size pos st =
     (case st of (rng_states, acc) \<Rightarrow>
        if pos < length acc then
          (let (sub_acc, rng_states') = gpu_loop step pos (nat sub_sample_size) 0 rng_states
           in (rng_states', acc[pos := float32 (of_int sub_acc)]))
        else (rng_states, acc))"

text \<open>
  A launch \<open>kernel[blocks, threadsperblock](...)\<close> runs the kernel once at every position
  of the grid. The order in which the device runs the threads is not fixed: \<open>sched\<close> is
  the order of one execution, a permutation of the grid.
\<close>

definition grid :: "nat \<Rightarrow> nat \<Rightarrow> nat list" where
  "grid blocks threadsperblock = [0..<blocks * threadsperblock]"

definition schedule_of :: "nat \<Rightarrow> nat \<Rightarrow> nat list \<Rightarrow> bool" where
  "schedule_of blocks threadsperblock sched \<longleftrightarrow> mset sched = mset (grid blocks threadsperblock)"

definition launch :: "nat list \<Rightarrow> (nat \<Rightarrow> 's \<Rightarrow> 's) \<Rightarrow> 's \<Rightarrow> 's" where
  "launch sched thread st = foldl (\<lambda>s pos. thread pos s) st sched"

text \<open>
  \<open>np.sum\<close> over an array of \<open>float32\<close> adds in \<open>float32\<close>: every partial sum is
  rounded. The elements are added from left to right, starting from 0; the libraries may
  add in another order, which gives the same result whenever no partial sum is rounded.
  \<open>.astype(int)\<close> drops the fractional part.
\<close>

definition np_sum :: "rat list \<Rightarrow> rat" where
  "np_sum xs = foldl (\<lambda>s v. float32 (s + v)) 0 xs"

definition astype_int :: "rat \<Rightarrow> int" where
  "astype_int q = (if 0 \<le> q then \<lfloor>q\<rfloor> else \<lceil>q\<rceil>)"

text \<open>
  \<^verbatim>\<open>
  @njit(fastmath=True)
  def calculate_pi(acc, sample_size):
      return 4 * np.sum(acc) / sample_size
  \<close>
  The sum is a \<open>float32\<close>; the product and the quotient are computed in \<open>float64\<close>.
  \<open>fastmath\<close> lets the compiler replace these operations by faster ones that round
  differently; the operations are modelled as written.
\<close>

definition calculate_pi :: "rat list \<Rightarrow> int \<Rightarrow> error + rat" where
  "calculate_pi acc sample_size =
     (if sample_size = 0 then Inl ZeroDivisionError
      else Inr (float64 (float64 (4 * np_sum acc) / float64 (of_int sample_size))))"

text \<open>
  The cell that runs the kernel directly:
  \<^verbatim>\<open>
  threadsperblock = 64
  blocks = 24
  acc = np.zeros(threadsperblock * blocks, dtype=np.float32)
  rng_states = create_xoroshiro128p_states(threadsperblock * blocks, seed=1)
  sub_sample_size = sample_size // acc.shape[0]
  ...
  gpu_monte_carlo_pi_sampler[blocks, threadsperblock](rng_states, sub_sample_size, acc)
  pi = calculate_pi(acc, sample_size)
  \<close>
\<close>

definition threadsperblock :: nat where
  "threadsperblock = 64"

definition blocks :: nat where
  "blocks = 24"

definition sub_sample_size :: "int \<Rightarrow> int" where
  "sub_sample_size sample_size = sample_size div int (threadsperblock * blocks)"

definition gpu_cell :: "(int \<Rightarrow> nat \<Rightarrow> 'g) \<Rightarrow> 'g draw \<Rightarrow> nat list \<Rightarrow> int \<Rightarrow> error + rat" where
  "gpu_cell init step sched sample_size =
     (let acc = replicate (threadsperblock * blocks) 0;
          rng_states = create_xoroshiro128p_states init (threadsperblock * blocks) 1;
          (rng_states', acc') =
             launch sched (gpu_monte_carlo_pi_sampler step (sub_sample_size sample_size))
               (rng_states, acc)
      in calculate_pi acc' sample_size)"

subsection \<open>The Beam pipeline\<close>

text \<open>
  \<^verbatim>\<open>
  class Sampler(beam.DoFn):
      def process(self, element: t.Tuple[int, int]):
          rng_seed = element[0]
          sample_size_per_sampler = element[1]
          threadsperblock_per_sampler = 64
          blocks_per_sampler = 24
          acc_per_sampler = np.zeros(
              threadsperblock_per_sampler * blocks_per_sampler, dtype=np.float32)
          rng_states_per_sampler = create_xoroshiro128p_states(
              threadsperblock_per_sampler * blocks_per_sampler, seed=rng_seed)
          sub_sample_size_per_thread = sample_size_per_sampler // acc_per_sampler.shape[0]
          gpu_monte_carlo_pi_sampler[blocks_per_sampler, threadsperblock_per_sampler](
              rng_states_per_sampler, sub_sample_size_per_thread, acc_per_sampler)
          yield acc_per_sampler
  \<close>
  Both arrays are created by the call, so the only inputs are the element and the order
  in which the device runs the threads of this launch.
\<close>

definition threadsperblock_per_sampler :: nat where
  "threadsperblock_per_sampler = 64"

definition blocks_per_sampler :: nat where
  "blocks_per_sampler = 24"

definition Sampler_process ::
    "(int \<Rightarrow> nat \<Rightarrow> 'g) \<Rightarrow> 'g draw \<Rightarrow> nat list \<Rightarrow> int \<times> int \<Rightarrow> rat list" where
  "Sampler_process init step sched element =
     (let rng_seed = fst element;
          sample_size_per_sampler = snd element;
          acc_per_sampler = replicate (threadsperblock_per_sampler * blocks_per_sampler) 0;
          rng_states_per_sampler =
             create_xoroshiro128p_states init
               (threadsperblock_per_sampler * blocks_per_sampler) rng_seed;
          sub_sample_size_per_thread =
             sample_size_per_sampler div int (length acc_per_sampler)
      in snd (launch sched (gpu_monte_carlo_pi_sampler step sub_sample_size_per_thread)
                (rng_states_per_sampler, acc_per_sampler)))"

text \<open>
  \<^verbatim>\<open>
  sampler_count = 100
  sample_size_per_sampler = sample_size // sampler_count
  samplers_per_gpu_thread = (p
      | beam.Create([(i, sample_size_per_sampler) for i in range(sampler_count)])
      | beam.ParDo(Sampler()))
  \<close>
  \<open>sample_size\<close> and \<open>sampler_count\<close> are the inputs of the run. The division is
  evaluated when the cell runs, before the pipeline holds any element.
\<close>

definition sample_size_per_sampler :: "int \<Rightarrow> int \<Rightarrow> error + int" where
  "sample_size_per_sampler sample_size sampler_count =
     (if sampler_count = 0 then Inl ZeroDivisionError
      else Inr (sample_size div sampler_count))"

definition elements :: "int \<Rightarrow> int \<Rightarrow> (int \<times> int) list" where
  "elements sampler_count per_sampler = map (\<lambda>i. (i, per_sampler)) [0..sampler_count - 1]"

definition tasks :: "int \<Rightarrow> int \<Rightarrow> error + (int \<times> int) list" where
  "tasks sample_size sampler_count =
     (case sample_size_per_sampler sample_size sampler_count of
        Inl e \<Rightarrow> Inl e
      | Inr per_sampler \<Rightarrow> Inr (elements sampler_count per_sampler))"

definition samplers_per_gpu_thread ::
    "(int \<Rightarrow> nat \<Rightarrow> 'g) \<Rightarrow> 'g draw \<Rightarrow> (int \<times> int \<Rightarrow> nat list) \<Rightarrow> (int \<times> int) list
       \<Rightarrow> rat list list" where
  "samplers_per_gpu_thread init step sched_for els =
     map (\<lambda>e. Sampler_process init step (sched_for e) e) els"

text \<open>
  \<^verbatim>\<open>
  acc_per_sampler = samplers_per_gpu_thread | beam.Map(lambda x: np.sum(x).astype(int).item())
  sum_acc = acc_per_sampler | beam.CombineGlobally(sum)
  print_pi = sum_acc | beam.Map(lambda x: print(4 * x / sample_size))
  \<close>
  The first map turns the \<open>float32\<close> sum of the array of one sampler into a Python
  integer; from there on the counts are integers, and \<open>4 * x / sample_size\<close> is the
  quotient of two integers, rounded once to double.
  \<open>sum\<close> is Python's builtin: it starts from 0 and adds from left to right.
  \<open>CombineGlobally(fn)\<close> applies \<open>fn\<close> to the elements of each bundle and then to the
  outputs of the bundles. The runner decides how the elements of a collection are
  ordered and grouped into bundles: \<open>bundle\<close> is that decision for one execution.
\<close>

definition acc_per_sampler :: "rat list list \<Rightarrow> int list" where
  "acc_per_sampler xs = map (\<lambda>x. astype_int (np_sum x)) xs"

definition sum_builtin :: "int list \<Rightarrow> int" where
  "sum_builtin xs = foldl (+) 0 xs"

definition CombineGlobally :: "('a list \<Rightarrow> 'a) \<Rightarrow> 'a list list \<Rightarrow> 'a" where
  "CombineGlobally fn bundles = fn (map fn bundles)"

definition sum_acc :: "(int list \<Rightarrow> int list list) \<Rightarrow> int list \<Rightarrow> int" where
  "sum_acc bundle xs = CombineGlobally sum_builtin (bundle xs)"

definition print_pi :: "int \<Rightarrow> int \<Rightarrow> error + rat" where
  "print_pi sample_size x =
     (if sample_size = 0 then Inl ZeroDivisionError
      else Inr (float64 (4 * of_int x / of_int sample_size)))"

definition run_pipeline ::
    "(int \<Rightarrow> nat \<Rightarrow> 'g) \<Rightarrow> 'g draw \<Rightarrow> (int \<times> int \<Rightarrow> nat list) \<Rightarrow> (int list \<Rightarrow> int list list)
       \<Rightarrow> int \<Rightarrow> int \<Rightarrow> error + rat" where
  "run_pipeline init step sched_for bundle sample_size sampler_count =
     (case tasks sample_size sampler_count of
        Inl e \<Rightarrow> Inl e
      | Inr els \<Rightarrow>
          print_pi sample_size
            (sum_acc bundle (acc_per_sampler (samplers_per_gpu_thread init step sched_for els))))"

section \<open>Specification-side definitions\<close>

text \<open>
  The draws of a generator, counted from its current state: \<open>draw_at step g k\<close> is the
  value of draw number \<open>k\<close> (from 0). Iteration \<open>i\<close> of a sampling loop that starts in
  state \<open>g\<close> uses draw \<open>2 * i\<close> as \<open>x\<close> and draw \<open>2 * i + 1\<close> as \<open>y\<close>; it is a hit when
  the sum of their squares, computed with \<open>p\<close> significant bits, is below 1.
  \<open>in_circle_count p step g n\<close> is the number of hits among the iterations
  \<open>0, ..., n - 1\<close>.
\<close>

definition advance :: "'g draw \<Rightarrow> 'g \<Rightarrow> 'g" where
  "advance step g = snd (step g)"

definition draw_at :: "'g draw \<Rightarrow> 'g \<Rightarrow> nat \<Rightarrow> rat" where
  "draw_at step g k = fst (step ((advance step ^^ k) g))"

definition hit :: "nat \<Rightarrow> 'g draw \<Rightarrow> 'g \<Rightarrow> nat \<Rightarrow> bool" where
  "hit p step g i \<longleftrightarrow>
     rne p (rne p (draw_at step g (2 * i) * draw_at step g (2 * i)) +
            rne p (draw_at step g (2 * i + 1) * draw_at step g (2 * i + 1))) < 1"

definition in_circle_count :: "nat \<Rightarrow> 'g draw \<Rightarrow> 'g \<Rightarrow> nat \<Rightarrow> int" where
  "in_circle_count p step g n = int (length (filter (hit p step g) [0..<n]))"

text \<open>
  The two arrays once the threads at the positions in \<open>finished\<close> have run, each with
  \<open>n\<close> iterations, and no other thread has.
\<close>

definition after_launch ::
    "'g draw \<Rightarrow> int \<Rightarrow> nat set \<Rightarrow> 'g list \<times> rat list \<Rightarrow> 'g list \<times> rat list" where
  "after_launch step n finished st =
     (case st of (rng_states, acc) \<Rightarrow>
       (map (\<lambda>p. if p \<in> finished then (advance step ^^ (2 * nat n)) (rng_states ! p)
                   else rng_states ! p) [0..<length rng_states],
        map (\<lambda>p. if p \<in> finished
                   then float32 (of_int (in_circle_count 24 step (rng_states ! p) (nat n)))
                   else acc ! p) [0..<length acc]))"

text \<open>
  The exact counts of the threads of one sampler of the pipeline and of the cell that
  runs the kernel directly, and the exact count of a whole run of the pipeline: the sum
  over the samplers (seeds \<open>0, ..., sampler_count - 1\<close>) and over the threads of each.
\<close>

definition thread_counts :: "(int \<Rightarrow> nat \<Rightarrow> 'g) \<Rightarrow> 'g draw \<Rightarrow> int \<Rightarrow> int \<Rightarrow> int list" where
  "thread_counts init step seed per_thread =
     map (\<lambda>pos. in_circle_count 24 step (init seed pos) (nat per_thread))
       [0..<threadsperblock_per_sampler * blocks_per_sampler]"

definition cell_counts :: "(int \<Rightarrow> nat \<Rightarrow> 'g) \<Rightarrow> 'g draw \<Rightarrow> int \<Rightarrow> int list" where
  "cell_counts init step sample_size =
     map (\<lambda>pos. in_circle_count 24 step (init 1 pos) (nat (sub_sample_size sample_size)))
       [0..<threadsperblock * blocks]"

definition total_in_circle :: "(int \<Rightarrow> nat \<Rightarrow> 'g) \<Rightarrow> 'g draw \<Rightarrow> int \<Rightarrow> int \<Rightarrow> int" where
  "total_in_circle init step sample_size sampler_count =
     sum_list (map (\<lambda>seed. sum_list (thread_counts init step seed
                  ((sample_size div sampler_count)
                     div int (threadsperblock_per_sampler * blocks_per_sampler))))
       [0..sampler_count - 1])"

subsection \<open>A small generator and two runners for the examples\<close>

text \<open>
  A linear congruential generator of period 16, a generator whose draws are all 0, a
  generator that draws \<open>1 - 1 / 2 ^ 53\<close> and \<open>127331000 / 2 ^ 53\<close> in turn (two doubles
  of the unit interval), the execution that runs every launch in grid order, and two
  ways of bundling a collection.
\<close>

definition lcg_step :: "nat draw" where
  "lcg_step g = (of_nat (g mod 16) / 16, (5 * g + 3) mod 16)"

definition lcg_init :: "int \<Rightarrow> nat \<Rightarrow> nat" where
  "lcg_init seed pos = (nat seed + pos) mod 16"

definition zero_step :: "nat draw" where
  "zero_step g = (0, g)"

definition edge_step :: "nat draw" where
  "edge_step g = (if even g then 1 - 1 / 2 ^ 53 else 127331000 / 2 ^ 53, Suc g)"

definition in_grid_order :: "int \<times> int \<Rightarrow> nat list" where
  "in_grid_order e = grid blocks_per_sampler threadsperblock_per_sampler"

definition one_bundle :: "int list \<Rightarrow> int list list" where
  "one_bundle xs = [xs]"

definition split_bundles :: "int list \<Rightarrow> int list list" where
  "split_bundles xs = [drop 1 xs, take 1 xs]"

section \<open>The partition of the work\<close>

lemma elements_snd: "map snd (elements n c) = replicate (nat n) c"
proof -
  have "length [0..n - 1] = nat n" by simp
  then show ?thesis
    by (simp add: elements_def map_replicate_const comp_def)
qed

lemma elements_fst: "map fst (elements n c) = [0..n - 1]"
  by (simp add: elements_def comp_def)

lemma length_elements: "length (elements n c) = nat n"
  by (simp add: elements_def)

lemma sum_list_replicate_int: "sum_list (replicate k (c::int)) = int k * c"
  by (induction k) (simp_all add: algebra_simps)

lemma tasks_Inr:
  "sampler_count \<noteq> 0 \<Longrightarrow>
   tasks sample_size sampler_count
     = Inr (elements sampler_count (sample_size div sampler_count))"
  by (simp add: tasks_def sample_size_per_sampler_def)

lemma tasks_Inl: "tasks sample_size 0 = Inl ZeroDivisionError"
  by (simp add: tasks_def sample_size_per_sampler_def)

lemma tasks_10_3: "tasks 10 3 = Inr [(0, 3), (1, 3), (2, 3)]"
  by (simp add: tasks_def sample_size_per_sampler_def elements_def upto.simps)

text \<open>
  C1, as the code has it. The claim says that the sample counts of the tasks sum to
  \<open>total_sample_size\<close>, the remainder of the division going to the last task. The code
  gives every task the quotient and drops the remainder: for a positive number of
  samplers, the run has that many tasks, every task has
  \<open>sample_size div sampler_count\<close> samples, and the counts sum to
  \<open>sample_size - sample_size mod sampler_count\<close>, which is \<open>sample_size\<close> exactly when
  \<open>sampler_count\<close> divides \<open>sample_size\<close>.
\<close>

theorem tasks_sample_counts:
  assumes "0 < sampler_count"
  shows "\<exists>ts. tasks sample_size sampler_count = Inr ts
           \<and> length ts = nat sampler_count
           \<and> map snd ts = replicate (nat sampler_count) (sample_size div sampler_count)
           \<and> sum_list (map snd ts) = sample_size - sample_size mod sampler_count
           \<and> (sum_list (map snd ts) = sample_size \<longleftrightarrow> sampler_count dvd sample_size)"
proof -
  let ?ts = "elements sampler_count (sample_size div sampler_count)"
  have t: "tasks sample_size sampler_count = Inr ?ts"
    using assms by (simp add: tasks_Inr)
  have s: "sum_list (map snd ?ts) = sample_size - sample_size mod sampler_count"
    using assms by (simp add: elements_snd sum_list_replicate_int minus_mod_eq_mult_div)
  have d: "sum_list (map snd ?ts) = sample_size \<longleftrightarrow> sampler_count dvd sample_size"
    unfolding s using assms by (auto simp: dvd_eq_mod_eq_0)
  show ?thesis using t s d by (simp add: length_elements elements_snd)
qed

theorem tasks_sample_counts_witness:
  "tasks 10 3 = Inr [(0, 3), (1, 3), (2, 3)]
   \<and> sum_list (map snd [(0, 3), (1, 3), (2, 3)]) = (10::int) - 10 mod 3"
proof -
  obtain ts where "tasks 10 3 = Inr ts"
      and "sum_list (map snd ts) = (10::int) - 10 mod 3"
    using tasks_sample_counts [of 3 10] by auto
  then show ?thesis by (simp add: tasks_10_3)
qed

text \<open>
  The claim of C1 fails on the code: 10 samples over 3 samplers give three tasks of 3
  samples, and the 100,000,000 samples of the notebook over the 1536 threads of the
  kernel give 65104 samples each, 99,999,744 in all.
\<close>

theorem tasks_drop_remainder:
  "tasks 10 3 = Inr [(0, 3), (1, 3), (2, 3)]
   \<and> sum_list (map snd [(0, 3), (1, 3), (2, 3)]) \<noteq> (10::int)
   \<and> int (threadsperblock * blocks) * sub_sample_size 100000000 \<noteq> 100000000"
  by (simp add: tasks_def sample_size_per_sampler_def elements_def upto.simps
      threadsperblock_def blocks_def sub_sample_size_def)

text \<open>
  C8: the seeds of the tasks of a run are pairwise distinct, and the seed of a task is
  its index in the list of tasks (the code has no run seed: the seed depends on the index
  alone).
\<close>

theorem tasks_seeds:
  assumes "tasks sample_size sampler_count = Inr ts"
  shows "distinct (map fst ts) \<and> (\<forall>i < length ts. fst (ts ! i) = int i)"
proof -
  have ts: "ts = elements sampler_count (sample_size div sampler_count)"
    using assms by (auto simp: tasks_def sample_size_per_sampler_def split: if_splits)
  have "distinct (map fst ts)" by (simp add: ts elements_fst)
  moreover have "fst (ts ! i) = int i" if "i < length ts" for i
  proof -
    have "fst (ts ! i) = map fst ts ! i" using that by simp
    also have "\<dots> = int i" using that by (simp add: ts elements_fst length_elements)
    finally show ?thesis .
  qed
  ultimately show ?thesis by blast
qed

theorem tasks_seeds_witness:
  "tasks 10 3 = Inr [(0, 3), (1, 3), (2, 3)]
   \<and> distinct (map fst [(0::int, 3::int), (1, 3), (2, 3)])
   \<and> fst ([(0::int, 3::int), (1, 3), (2, 3)] ! 2) = 2"
  using tasks_10_3 tasks_seeds [OF tasks_10_3] by simp

section \<open>The reduction\<close>

lemma sum_builtin_eq: "sum_builtin xs = sum_list xs"
proof -
  have "foldl (+) a xs = a + sum_list xs" for a :: int
    by (induction xs arbitrary: a) (simp_all add: algebra_simps)
  then show ?thesis by (simp add: sum_builtin_def)
qed

lemma CombineGlobally_sum: "CombineGlobally sum_builtin bs = sum_list (concat bs)"
proof -
  have "sum_list (map sum_list bs) = sum_list (concat bs)" for bs :: "int list list"
    by (induction bs) simp_all
  then show ?thesis
    by (simp add: CombineGlobally_def sum_builtin_eq cong: map_cong)
qed

lemma sum_list_mset_cong: "mset xs = mset ys \<Longrightarrow> sum_list xs = sum_list (ys :: int list)"
  by (metis sum_mset_sum_list)

lemma sum_acc_eq: "mset (concat (bundle xs)) = mset xs \<Longrightarrow> sum_acc bundle xs = sum_list xs"
  unfolding sum_acc_def CombineGlobally_sum by (rule sum_list_mset_cong)

lemma one_bundle_mset: "mset (concat (one_bundle xs)) = mset xs"
  by (simp add: one_bundle_def)

lemma split_bundles_mset: "mset (concat (split_bundles xs)) = mset xs"
proof -
  have "mset (drop 1 xs) + mset (take 1 xs) = mset (take 1 xs @ drop 1 xs)"
    by (simp only: mset_append add.commute)
  then show ?thesis by (simp add: split_bundles_def)
qed

text \<open>
  C5: the total that the reduction computes does not depend on the order in which the
  partial counts arrive, nor on how the runner groups them into bundles: two executions
  that reduce the same multiset of partial counts compute the same total.
\<close>

theorem sum_acc_order_invariant:
  assumes "mset (concat (bundle1 xs)) = mset xs"
      and "mset (concat (bundle2 ys)) = mset ys"
      and "mset xs = mset ys"
  shows "sum_acc bundle1 xs = sum_acc bundle2 ys"
proof -
  have "sum_acc bundle1 xs = sum_list xs" using assms(1) by (rule sum_acc_eq)
  also have "\<dots> = sum_list ys" using assms(3) by (rule sum_list_mset_cong)
  also have "\<dots> = sum_acc bundle2 ys" using assms(2) by (rule sum_acc_eq [symmetric])
  finally show ?thesis .
qed

theorem sum_acc_order_invariant_witness:
  "sum_acc split_bundles [3, 5, 8] = sum_acc one_bundle [8, 3, 5]"
  using sum_acc_order_invariant [of split_bundles "[3, 5, 8]" one_bundle "[8, 3, 5]"]
  by (simp add: one_bundle_mset split_bundles_mset)

section \<open>Rounding\<close>

text \<open>
  \<open>rne p q\<close> is a value with a significand of \<open>p\<close> bits, at most half a unit in the last
  place away from \<open>q\<close>; it is \<open>q\<close> itself for the integers up to \<open>2 ^ p\<close>.
\<close>

lemma bitlen_powi_bounds:
  assumes "0 < a"
  shows "2 powi (bitlen a - 1) \<le> (of_int a :: rat)" and "(of_int a :: rat) < 2 powi bitlen a"
proof -
  have b: "1 \<le> bitlen a" using assms by (simp add: bitlen_alt_def)
  have "2 ^ nat (bitlen a - 1) \<le> a" and "a < 2 ^ nat (bitlen a)"
    using bitlen_bounds [OF assms] by simp_all
  then have "(of_int (2 ^ nat (bitlen a - 1)) :: rat) \<le> of_int a"
    and "(of_int a :: rat) < of_int (2 ^ nat (bitlen a))"
    by (simp_all only: of_int_le_iff of_int_less_iff)
  then show "2 powi (bitlen a - 1) \<le> (of_int a :: rat)"
    and "(of_int a :: rat) < 2 powi bitlen a"
    using b by (simp_all add: power_int_def)
qed

lemma ilog2_bounds:
  assumes "0 < q"
  shows "2 powi ilog2 q \<le> q" and "q < 2 powi (ilog2 q + 1)"
proof -
  obtain a b where ab: "quotient_of q = (a, b)" by (cases "quotient_of q")
  have bpos: "0 < b" using ab by (rule quotient_of_denom_pos)
  have q: "q = of_int a / of_int b" using ab by (rule quotient_of_div)
  have apos: "0 < a" using assms bpos by (simp add: q zero_less_divide_iff)
  let ?d = "bitlen a - bitlen b"
  have lo: "2 powi (?d - 1) \<le> q"
  proof -
    have "2 powi (?d - 1) * of_int b \<le> 2 powi (?d - 1) * (2 powi bitlen b :: rat)"
      using bitlen_powi_bounds(2) [OF bpos] by (intro mult_left_mono) simp_all
    also have "\<dots> = 2 powi (bitlen a - 1)"
      by (simp add: power_int_add [symmetric])
    also have "\<dots> \<le> of_int a" using bitlen_powi_bounds(1) [OF apos] .
    finally show ?thesis using bpos by (simp add: q pos_le_divide_eq)
  qed
  have hi: "q < 2 powi (?d + 1)"
  proof -
    have "(of_int a :: rat) < 2 powi bitlen a" using bitlen_powi_bounds(2) [OF apos] .
    also have "\<dots> = 2 powi (?d + 1) * 2 powi (bitlen b - 1)"
      by (simp add: power_int_add [symmetric])
    also have "\<dots> \<le> 2 powi (?d + 1) * of_int b"
      using bitlen_powi_bounds(1) [OF bpos] by (intro mult_left_mono) simp_all
    finally show ?thesis using bpos by (simp add: q pos_divide_less_eq)
  qed
  show "2 powi ilog2 q \<le> q" and "q < 2 powi (ilog2 q + 1)"
    using lo hi by (auto simp: ilog2_def ab Let_def not_le)
qed

lemma round_half_even_nearest: "\<bar>of_int (round_half_even m) - m\<bar> \<le> 1 / 2"
proof -
  have "of_int \<lfloor>m\<rfloor> \<le> m" and "m < of_int \<lfloor>m\<rfloor> + 1"
    by linarith+
  then show ?thesis
    by (auto simp: round_half_even_def Let_def abs_le_iff)
qed

lemma significand_range:
  assumes "q \<noteq> 0"
  shows "2 ^ p \<le> 2 * (\<bar>q\<bar> / 2 powi (ilog2 \<bar>q\<bar> - (int p - 1)))"
    and "\<bar>q\<bar> / 2 powi (ilog2 \<bar>q\<bar> - (int p - 1)) < 2 ^ p"
proof -
  let ?l = "ilog2 \<bar>q\<bar>"
  have pos: "0 < \<bar>q\<bar>" using assms by simp
  have e: "(2::rat) powi ?l = 2 powi (?l - (int p - 1)) * 2 powi (int p - 1)"
    by (simp add: power_int_add [symmetric])
  have e1: "(2::rat) powi (?l + 1) = 2 powi (?l - (int p - 1)) * 2 ^ p"
  proof -
    have "?l + 1 = (?l - (int p - 1)) + int p" by simp
    then have "(2::rat) powi (?l + 1) = 2 powi ((?l - (int p - 1)) + int p)"
      by (rule arg_cong)
    also have "\<dots> = 2 powi (?l - (int p - 1)) * 2 powi int p"
      by (rule power_int_add) simp
    also have "(2::rat) powi int p = 2 ^ p" by simp
    finally show ?thesis .
  qed
  have p2: "(2::rat) ^ p = 2 * 2 powi (int p - 1)"
  proof -
    have "int p = 1 + (int p - 1)" by simp
    then have "(2::rat) powi int p = 2 powi (1 + (int p - 1))"
      by (rule arg_cong)
    also have "\<dots> = 2 powi 1 * 2 powi (int p - 1)"
      by (rule power_int_add) simp
    finally show ?thesis by simp
  qed
  have "2 powi (int p - 1) \<le> \<bar>q\<bar> / 2 powi (?l - (int p - 1))"
    using ilog2_bounds(1) [OF pos] unfolding e
    by (simp add: pos_le_divide_eq mult.commute)
  then show "2 ^ p \<le> 2 * (\<bar>q\<bar> / 2 powi (?l - (int p - 1)))"
    unfolding p2 by simp
  show "\<bar>q\<bar> / 2 powi (?l - (int p - 1)) < 2 ^ p"
    using ilog2_bounds(2) [OF pos] unfolding e1
    by (simp add: pos_divide_less_eq mult.commute)
qed

lemma rne_nearest:
  "\<bar>rne p q - q\<bar> \<le> 2 powi (ilog2 \<bar>q\<bar> - (int p - 1)) / 2"
proof (cases "q = 0")
  case True
  then show ?thesis by (simp add: rne_def)
next
  case False
  let ?e = "ilog2 \<bar>q\<bar> - (int p - 1)"
  let ?m = "\<bar>q\<bar> / 2 powi ?e"
  let ?n = "round_half_even ?m"
  have q: "q = sgn q * (?m * 2 powi ?e)"
    by (simp add: sgn_mult_abs)
  have "rne p q - q = sgn q * ((of_int ?n - ?m) * 2 powi ?e)"
  proof -
    have "rne p q = sgn q * (of_int ?n * 2 powi ?e)"
      using False by (simp add: rne_def Let_def)
    moreover have "q = sgn q * (?m * 2 powi ?e)" by (rule q)
    ultimately have "rne p q - q = sgn q * (of_int ?n * 2 powi ?e) - sgn q * (?m * 2 powi ?e)"
      by simp
    then show ?thesis by (simp only: right_diff_distrib [symmetric] left_diff_distrib [symmetric])
  qed
  then have "\<bar>rne p q - q\<bar> = \<bar>of_int ?n - ?m\<bar> * 2 powi ?e"
    using False by (simp add: abs_mult abs_sgn_eq)
  also have "\<dots> \<le> (1 / 2) * 2 powi ?e"
    using round_half_even_nearest [of ?m] by (intro mult_right_mono) simp_all
  finally show ?thesis by simp
qed

lemma round_half_even_between:
  assumes "of_int k \<le> m" and "m \<le> of_int l"
  shows "k \<le> round_half_even m" and "round_half_even m \<le> l"
proof -
  have f: "k \<le> \<lfloor>m\<rfloor>" using assms(1) by (simp add: le_floor_iff)
  then show "k \<le> round_half_even m"
    by (simp add: round_half_even_def Let_def)
  show "round_half_even m \<le> l"
  proof (cases "m = of_int l")
    case True
    then show ?thesis by (simp add: round_half_even_def)
  next
    case False
    then have "m < of_int l" using assms(2) by simp
    then have "\<lfloor>m\<rfloor> < l" by (simp add: floor_less_iff)
    then show ?thesis by (simp add: round_half_even_def Let_def)
  qed
qed

lemma rne_significand:
  assumes "q \<noteq> 0" and "0 < p"
  shows "rne p q = sgn q * of_int (round_half_even (\<bar>q\<bar> / 2 powi (ilog2 \<bar>q\<bar> - (int p - 1))))
                     * 2 powi (ilog2 \<bar>q\<bar> - (int p - 1))"
    and "2 ^ (p - 1) \<le> round_half_even (\<bar>q\<bar> / 2 powi (ilog2 \<bar>q\<bar> - (int p - 1)))"
    and "round_half_even (\<bar>q\<bar> / 2 powi (ilog2 \<bar>q\<bar> - (int p - 1))) \<le> 2 ^ p"
proof -
  let ?m = "\<bar>q\<bar> / 2 powi (ilog2 \<bar>q\<bar> - (int p - 1))"
  show "rne p q = sgn q * of_int (round_half_even ?m) * 2 powi (ilog2 \<bar>q\<bar> - (int p - 1))"
    using assms(1) by (simp add: rne_def Let_def)
  obtain k where p: "p = Suc k" using assms(2) by (cases p) simp_all
  have "2 ^ p \<le> 2 * ?m" and "?m < 2 ^ p"
    using significand_range [OF assms(1), of p] by simp_all
  then have "of_int (2 ^ (p - 1)) \<le> ?m" and "?m \<le> of_int (2 ^ p)"
    by (simp_all add: p)
  then show "2 ^ (p - 1) \<le> round_half_even ?m" and "round_half_even ?m \<le> 2 ^ p"
    by (rule round_half_even_between)+
qed

lemma round_half_even_of_int: "round_half_even (of_int z) = z"
  by (simp add: round_half_even_def)

lemma rne_0: "rne p 0 = 0"
  by (simp add: rne_def)

lemma rne_exact:
  assumes "q \<noteq> 0" and "\<bar>q\<bar> / 2 powi (ilog2 \<bar>q\<bar> - (int p - 1)) = of_int z"
  shows "rne p q = q"
proof -
  let ?e = "ilog2 \<bar>q\<bar> - (int p - 1)"
  have "rne p q = sgn q * (of_int z * 2 powi ?e)"
    using assms by (simp add: rne_def Let_def round_half_even_of_int)
  moreover have "of_int z * 2 powi ?e = \<bar>q\<bar>"
    using assms(2) by (simp add: field_simps)
  ultimately show ?thesis by (simp add: sgn_mult_abs)
qed

lemma bitlen_1: "bitlen 1 = 1"
  by (simp add: bitlen_alt_def)

lemma ilog2_of_int_le: "ilog2 (of_int n) \<le> bitlen n - 1"
  by (simp add: ilog2_def Let_def bitlen_1)

lemma rne_of_int_less:
  assumes "0 \<le> n" and "n < 2 ^ p"
  shows "rne p (of_int n) = of_int n"
proof (cases "n = 0")
  case True
  then show ?thesis by (simp add: rne_0)
next
  case False
  with assms have pos: "0 < n" by simp
  let ?e = "ilog2 \<bar>rat_of_int n\<bar> - (int p - 1)"
  have "bitlen n \<le> int p"
    using assms(2) by (simp add: bitlen_le_iff_power)
  then have e: "?e \<le> 0"
    using ilog2_of_int_le [of n] pos by simp
  define k where "k = nat (- ?e)"
  have ek: "?e = - int k" using e by (simp add: k_def)
  have "\<bar>rat_of_int n\<bar> / 2 powi ?e = of_int (n * 2 ^ k)"
    unfolding ek using pos by (simp add: power_int_minus field_simps)
  then show ?thesis
    using pos by (intro rne_exact [where z = "n * 2 ^ k"]) simp_all
qed

lemma ilog2_power2: "ilog2 (2 ^ p) = int p"
proof -
  have q: "quotient_of (2 ^ p) = (2 ^ p, 1)"
    using quotient_of_rat_of_int [of "2 ^ p"] by simp
  have b: "bitlen (2 ^ p) = int p + 1"
    using bitlen_pow2 [of 1 p] by (simp add: bitlen_1)
  show ?thesis
    by (simp add: ilog2_def q b bitlen_1)
qed

lemma rne_power2:
  assumes "0 < p"
  shows "rne p (2 ^ p) = 2 ^ p"
proof -
  obtain k where p: "p = Suc k" using assms by (cases p) simp_all
  have e: "ilog2 \<bar>2 ^ p\<bar> - (int p - 1) = 1"
    by (simp add: ilog2_power2)
  have "\<bar>2 ^ p :: rat\<bar> / 2 powi (ilog2 \<bar>2 ^ p\<bar> - (int p - 1)) = of_int (2 ^ k)"
    unfolding e by (simp add: p)
  then show ?thesis
    by (intro rne_exact [where z = "2 ^ k"]) simp_all
qed

lemma rne_of_int:
  assumes "0 \<le> n" and "n \<le> 2 ^ p" and "0 < p"
  shows "rne p (of_int n) = of_int n"
proof (cases "n = 2 ^ p")
  case True
  then show ?thesis using rne_power2 [OF assms(3)] by simp
next
  case False
  then show ?thesis using assms by (intro rne_of_int_less) simp_all
qed

lemma float32_of_int: "0 \<le> n \<Longrightarrow> n \<le> 2 ^ 24 \<Longrightarrow> float32 (of_int n) = of_int n"
  by (simp add: float32_def rne_of_int)

lemma float64_of_int: "0 \<le> n \<Longrightarrow> n \<le> 2 ^ 53 \<Longrightarrow> float64 (of_int n) = of_int n"
  by (simp add: float64_def rne_of_int)

lemma astype_int_of_int: "astype_int (of_int n) = n"
  by (simp add: astype_int_def)

lemma np_sum_from:
  assumes "0 \<le> a" and "\<forall>c \<in> set cs. 0 \<le> c" and "a + sum_list cs \<le> 2 ^ 24"
  shows "foldl (\<lambda>s v. float32 (s + v)) (of_int a) (map of_int cs) = of_int (a + sum_list cs)"
  using assms
proof (induction cs arbitrary: a)
  case Nil
  show ?case by simp
next
  case (Cons c cs)
  have nn: "0 \<le> sum_list cs"
    using Cons.prems(2) by (intro sum_list_nonneg) simp
  have "0 \<le> a + c" and "a + c \<le> 2 ^ 24"
    using Cons.prems nn by simp_all
  then have "float32 (of_int a + of_int c) = of_int (a + c)"
    using float32_of_int [of "a + c"] by simp
  moreover have "foldl (\<lambda>s v. float32 (s + v)) (of_int (a + c)) (map of_int cs)
      = of_int (a + c + sum_list cs)"
    using Cons.prems \<open>0 \<le> a + c\<close> by (intro Cons.IH) (simp_all add: add.assoc)
  ultimately show ?case by (simp add: add.assoc)
qed

lemma np_sum_exact:
  assumes "\<forall>c \<in> set cs. 0 \<le> c" and "sum_list cs \<le> 2 ^ 24"
  shows "np_sum (map of_int cs) = of_int (sum_list cs)"
  using np_sum_from [of 0 cs] assms by (simp add: np_sum_def)

lemma float32_counts:
  assumes "\<forall>c \<in> set cs. 0 \<le> c" and "sum_list cs \<le> 2 ^ 24"
  shows "map (\<lambda>c. float32 (of_int c)) cs = map of_int cs"
proof (rule map_cong [OF refl])
  fix c assume c: "c \<in> set cs"
  then have "0 \<le> c" using assms(1) by simp
  moreover have "c \<le> sum_list cs"
    using c assms(1) by (intro member_le_sum_list) simp_all
  ultimately show "float32 (of_int c) = of_int c"
    using assms(2) by (intro float32_of_int) simp_all
qed

lemma astype_int_np_sum:
  assumes "\<forall>c \<in> set cs. 0 \<le> c" and "sum_list cs \<le> 2 ^ 24"
  shows "astype_int (np_sum (map (\<lambda>c. float32 (of_int c)) cs)) = sum_list cs"
  by (simp only: float32_counts [OF assms] np_sum_exact [OF assms] astype_int_of_int)

section \<open>The sampling loop\<close>

lemma draw_at_shift:
  "draw_at step g (Suc (Suc k)) = draw_at step (advance step (advance step g)) k"
  by (simp add: draw_at_def funpow_swap1)

lemma hit_shift: "hit p step g (Suc i) = hit p step (advance step (advance step g)) i"
  by (simp add: hit_def draw_at_shift)

lemma hit_0:
  "hit p step g 0 \<longleftrightarrow>
     rne p (rne p (fst (step g) * fst (step g))
            + rne p (fst (step (snd (step g))) * fst (step (snd (step g))))) < 1"
  by (simp add: hit_def draw_at_def advance_def)

lemma in_circle_count_0: "in_circle_count p step g 0 = 0"
  by (simp add: in_circle_count_def)

lemma in_circle_count_Suc:
  "in_circle_count p step g (Suc n) =
     (if hit p step g 0 then 1 else 0)
       + in_circle_count p step (advance step (advance step g)) n"
proof -
  have "[0..<Suc n] = 0 # map Suc [0..<n]"
    by (simp add: upt_conv_Cons map_Suc_upt del: upt_Suc)
  then have "filter (hit p step g) [0..<Suc n] =
      (if hit p step g 0 then [0] else []) @ map Suc (filter (hit p step g \<circ> Suc) [0..<n])"
    by (simp add: filter_map del: upt_Suc)
  moreover have "hit p step g \<circ> Suc = hit p step (advance step (advance step g))"
    by (rule ext) (simp add: hit_shift)
  ultimately show ?thesis
    by (simp add: in_circle_count_def del: upt_Suc)
qed

lemma in_circle_count_bounds:
  "0 \<le> in_circle_count p step g n \<and> in_circle_count p step g n \<le> int n"
proof -
  have "length (filter (hit p step g) [0..<n]) \<le> length [0..<n]"
    by (rule length_filter_le)
  then show ?thesis by (simp add: in_circle_count_def)
qed

lemma in_circle_count_all:
  assumes "\<And>i. hit p step g i"
  shows "in_circle_count p step g n = int n"
  using assms by (simp add: in_circle_count_def)

lemma python_loop_eq:
  "python_loop step n acc g
     = (acc + in_circle_count 53 step g n, (advance step ^^ (2 * n)) g)"
proof (induction n arbitrary: acc g)
  case 0
  show ?case by (simp add: in_circle_count_0)
next
  case (Suc n)
  obtain x g1 where s1: "step g = (x, g1)" by (cases "step g")
  obtain y g2 where s2: "step g1 = (y, g2)" by (cases "step g1")
  have a: "advance step (advance step g) = g2"
    by (simp add: advance_def s1 s2)
  have h: "hit 53 step g 0 \<longleftrightarrow> float64 (float64 (x * x) + float64 (y * y)) < 1"
    by (simp add: hit_0 s1 s2 float64_def)
  have f: "(advance step ^^ Suc (Suc (2 * n))) g = (advance step ^^ (2 * n)) g2"
    by (simp add: funpow_swap1 a)
  show ?case
    by (simp add: s1 s2 Suc.IH in_circle_count_Suc a h f del: funpow.simps)
qed

lemma python_loop_count: "fst (python_loop random k 0 g) = in_circle_count 53 random g k"
  by (simp add: python_loop_eq)

lemma python_cpu_monte_carlo_pi_eq:
  "python_cpu_monte_carlo_pi random sample_size g =
     (if sample_size = 0 then Inl ZeroDivisionError
      else Inr (float64 (float64 (4 * float64 (of_int
                  (in_circle_count 53 random g (nat sample_size))))
                / float64 (of_int sample_size))),
      (advance random ^^ (2 * nat sample_size)) g)"
  by (simp add: python_cpu_monte_carlo_pi_def python_loop_eq)

lemma gpu_loop_eq:
  assumes "pos < length rng_states"
  shows "gpu_loop step pos n sub_acc rng_states =
     (sub_acc + in_circle_count 24 step (rng_states ! pos) n,
      rng_states[pos := (advance step ^^ (2 * n)) (rng_states ! pos)])"
  using assms
proof (induction n arbitrary: sub_acc rng_states)
  case 0
  then show ?case by (simp add: in_circle_count_0)
next
  case (Suc n)
  let ?g = "rng_states ! pos"
  obtain x g1 where s1: "step ?g = (x, g1)" by (cases "step ?g")
  obtain y g2 where s2: "step g1 = (y, g2)" by (cases "step g1")
  have u1: "xoroshiro128p_uniform_float32 step rng_states pos = (x, rng_states[pos := g1])"
    by (simp add: xoroshiro128p_uniform_float32_def s1)
  have u2: "xoroshiro128p_uniform_float32 step (rng_states[pos := g1]) pos
      = (y, rng_states[pos := g2])"
    using Suc.prems by (simp add: xoroshiro128p_uniform_float32_def s2)
  have len: "pos < length (rng_states[pos := g2])" using Suc.prems by simp
  have a: "advance step (advance step ?g) = g2"
    by (simp add: advance_def s1 s2)
  have h: "hit 24 step ?g 0 \<longleftrightarrow> float32 (float32 (x * x) + float32 (y * y)) < 1"
    by (simp add: hit_0 s1 s2 float32_def)
  have f: "(advance step ^^ Suc (Suc (2 * n))) ?g = (advance step ^^ (2 * n)) g2"
    by (simp add: funpow_swap1 a)
  show ?case
    using Suc.prems
    by (simp add: u1 u2 Suc.IH [OF len] in_circle_count_Suc a h f del: funpow.simps)
qed

lemma gpu_monte_carlo_pi_sampler_eq:
  assumes "pos < length acc" and "pos < length rng_states"
  shows "gpu_monte_carlo_pi_sampler step n pos (rng_states, acc) =
     (rng_states[pos := (advance step ^^ (2 * nat n)) (rng_states ! pos)],
      acc[pos := float32 (of_int (in_circle_count 24 step (rng_states ! pos) (nat n)))])"
  using assms
  by (simp add: gpu_monte_carlo_pi_sampler_def gpu_loop_eq)

text \<open>
  C9: with \<open>sample_size = 0\<close> the native function returns no estimate. The loop runs no
  iteration (the generator is left as it was) and the division raises
  \<open>ZeroDivisionError\<close>.
\<close>

theorem python_cpu_monte_carlo_pi_zero:
  "python_cpu_monte_carlo_pi random 0 g = (Inl ZeroDivisionError, g)"
  by (simp add: python_cpu_monte_carlo_pi_def)

text \<open>
  The native function draws from the generator of the module and takes no seed: two
  calls with the same argument, one after the other, differ.
\<close>

lemma python_cpu_monte_carlo_pi_successive_calls:
  "python_cpu_monte_carlo_pi lcg_step 1 10 = (Inr 4, 12)
   \<and> python_cpu_monte_carlo_pi lcg_step 1 12 = (Inr 0, 14)"
  by code_simp

subsection \<open>The jitted function\<close>

lemma machine_code_loop_eq:
  "machine_code_loop random k (word_of_int a) g =
     (word_of_int (fst (python_loop random k a g)), snd (python_loop random k a g))"
proof (induction k arbitrary: a g)
  case 0
  show ?case by simp
next
  case (Suc k)
  obtain x g1 where s1: "random g = (x, g1)" by (cases "random g")
  obtain y g2 where s2: "random g1 = (y, g2)" by (cases "random g1")
  have w: "word_of_int a + 1 = (word_of_int (a + 1) :: 64 word)" by simp
  show ?case
    by (simp add: s1 s2 w Suc.IH del: of_int_add)
qed

lemma sint_word_of_int_64:
  "0 \<le> a \<Longrightarrow> a < 2 ^ 63 \<Longrightarrow> sint (word_of_int a :: 64 word) = a"
  by (simp add: sint_sbintrunc' signed_take_bit_int_eq_self)

lemma sint_less_64: "sint (n :: 64 word) < 2 ^ 63"
  using sint_lt [of n] by simp

text \<open>
  C10: the jitted function computes what the native function computes. For every 64-bit
  sample size and every generator, started in the same state, the two return the same
  result (the same estimate or the same error) and leave the generator in the same
  state: the machine counter never wraps, since it is at most the number of iterations.
\<close>

theorem machine_code_agrees_with_python:
  "machine_code_cpu_monte_carlo_pi random sample_size g
     = python_cpu_monte_carlo_pi random (sint sample_size) g"
proof -
  let ?k = "nat (sint sample_size)"
  let ?a = "fst (python_loop random ?k 0 g)"
  have m: "machine_code_loop random ?k 0 g = (word_of_int ?a, snd (python_loop random ?k 0 g))"
    using machine_code_loop_eq [of random ?k 0 g] by simp
  have "0 \<le> ?a" and "?a \<le> int ?k"
    using in_circle_count_bounds [of 53 random g ?k] by (simp_all add: python_loop_count)
  moreover have "int ?k < 2 ^ 63"
    using sint_less_64 [of sample_size] by simp
  ultimately have s: "sint (word_of_int ?a :: 64 word) = ?a"
    by (intro sint_word_of_int_64) simp_all
  have z: "sample_size = 0 \<longleftrightarrow> sint sample_size = 0"
    by (metis signed_eq_0_iff)
  show ?thesis
    unfolding machine_code_cpu_monte_carlo_pi_def python_cpu_monte_carlo_pi_def m
    by (simp add: s z split_beta)
qed

section \<open>The launch of the kernel\<close>

lemma launch_snoc: "launch (xs @ [x]) thread st = thread x (launch xs thread st)"
  by (simp add: launch_def)

lemma launch_Nil: "launch [] thread st = st"
  by (simp add: launch_def)

lemma after_launch_empty: "after_launch step n {} (rs, acc) = (rs, acc)"
  by (simp add: after_launch_def map_nth)

lemma after_launch_step:
  assumes "x \<notin> D" and "length rs = length acc"
  shows "gpu_monte_carlo_pi_sampler step n x (after_launch step n D (rs, acc))
           = after_launch step n (insert x D) (rs, acc)"
proof (cases "x < length acc")
  case True
  obtain rs1 acc1 where st: "after_launch step n D (rs, acc) = (rs1, acc1)"
    by (cases "after_launch step n D (rs, acc)")
  have rs1: "rs1 = fst (after_launch step n D (rs, acc))"
    and acc1: "acc1 = snd (after_launch step n D (rs, acc))"
    by (simp_all add: st)
  have l1: "length rs1 = length rs" and l2: "length acc1 = length acc"
    by (simp_all add: rs1 acc1 after_launch_def)
  have r: "rs1 ! x = rs ! x"
    using True assms by (simp add: rs1 after_launch_def)
  have "gpu_monte_carlo_pi_sampler step n x (rs1, acc1) =
      (rs1[x := (advance step ^^ (2 * nat n)) (rs ! x)],
       acc1[x := float32 (of_int (in_circle_count 24 step (rs ! x) (nat n)))])"
    using True assms l1 l2 by (simp add: gpu_monte_carlo_pi_sampler_eq r)
  moreover have "rs1[x := (advance step ^^ (2 * nat n)) (rs ! x)]
      = fst (after_launch step n (insert x D) (rs, acc))"
    unfolding rs1 using True assms(2)
    by (intro nth_equalityI) (auto simp: after_launch_def nth_list_update)
  moreover have "acc1[x := float32 (of_int (in_circle_count 24 step (rs ! x) (nat n)))]
      = snd (after_launch step n (insert x D) (rs, acc))"
    unfolding acc1 using True assms(2)
    by (intro nth_equalityI) (auto simp: after_launch_def nth_list_update)
  ultimately show ?thesis by (simp add: st)
next
  case False
  have "after_launch step n (insert x D) (rs, acc) = after_launch step n D (rs, acc)"
    using False assms by (auto simp: after_launch_def)
  moreover have "gpu_monte_carlo_pi_sampler step n x (after_launch step n D (rs, acc))
      = after_launch step n D (rs, acc)"
    using False by (simp add: after_launch_def gpu_monte_carlo_pi_sampler_def)
  ultimately show ?thesis by simp
qed

lemma launch_eq:
  assumes "distinct sched" and "length rs = length acc"
  shows "launch sched (gpu_monte_carlo_pi_sampler step n) (rs, acc)
           = after_launch step n (set sched) (rs, acc)"
  using assms(1)
proof (induction sched rule: rev_induct)
  case Nil
  show ?case by (simp add: launch_Nil after_launch_empty)
next
  case (snoc x xs)
  then have "x \<notin> set xs" and "distinct xs" by simp_all
  then show ?case
    using snoc.IH assms(2) by (simp add: launch_snoc after_launch_step)
qed

lemma schedule_of_distinct: "schedule_of b t sched \<Longrightarrow> distinct sched"
  by (metis schedule_of_def grid_def distinct_upt mset_eq_imp_distinct_iff)

lemma schedule_of_set: "schedule_of b t sched \<Longrightarrow> set sched = {0..<b * t}"
  by (metis schedule_of_def grid_def mset_eq_setD atLeastLessThan_upt)

lemma schedule_of_grid: "schedule_of b t (grid b t)"
  by (simp add: schedule_of_def)

lemma schedule_of_rev_grid: "schedule_of b t (rev (grid b t))"
  by (simp add: schedule_of_def)

lemma schedule_of_in_grid_order:
  "schedule_of blocks_per_sampler threadsperblock_per_sampler (in_grid_order e)"
  by (simp add: in_grid_order_def schedule_of_grid)

lemma launch_schedule:
  assumes "schedule_of b t sched" and "length rs = length acc"
  shows "launch sched (gpu_monte_carlo_pi_sampler step n) (rs, acc)
           = after_launch step n {0..<b * t} (rs, acc)"
  using launch_eq [OF schedule_of_distinct [OF assms(1)] assms(2)]
  by (simp add: schedule_of_set [OF assms(1)])

section \<open>The sampler of the pipeline\<close>

lemma Sampler_process_eq:
  assumes "schedule_of blocks_per_sampler threadsperblock_per_sampler sched"
  shows "Sampler_process init step sched (seed, n)
     = map (\<lambda>c. float32 (of_int c))
         (thread_counts init step seed
            (n div int (threadsperblock_per_sampler * blocks_per_sampler)))"
proof -
  let ?N = "threadsperblock_per_sampler * blocks_per_sampler"
  have len: "length (create_xoroshiro128p_states init ?N seed) = length (replicate ?N (0::rat))"
    by (simp add: create_xoroshiro128p_states_def)
  have "Sampler_process init step sched (seed, n) =
      snd (launch sched (gpu_monte_carlo_pi_sampler step (n div int ?N))
        (create_xoroshiro128p_states init ?N seed, replicate ?N 0))"
    by (simp add: Sampler_process_def Let_def)
  also have "\<dots> = snd (after_launch step (n div int ?N)
        {0..<blocks_per_sampler * threadsperblock_per_sampler}
        (create_xoroshiro128p_states init ?N seed, replicate ?N 0))"
    by (simp only: launch_schedule [OF assms len])
  also have "\<dots> = map (\<lambda>c. float32 (of_int c)) (thread_counts init step seed (n div int ?N))"
    by (simp add: after_launch_def thread_counts_def create_xoroshiro128p_states_def
        mult.commute comp_def cong: map_cong)
  finally show ?thesis .
qed

lemma gpu_cell_eq:
  assumes "schedule_of blocks threadsperblock sched"
  shows "gpu_cell init step sched sample_size
     = calculate_pi (map (\<lambda>c. float32 (of_int c)) (cell_counts init step sample_size))
         sample_size"
proof -
  let ?N = "threadsperblock * blocks"
  have len: "length (create_xoroshiro128p_states init ?N 1) = length (replicate ?N (0::rat))"
    by (simp add: create_xoroshiro128p_states_def)
  have "snd (launch sched (gpu_monte_carlo_pi_sampler step (sub_sample_size sample_size))
        (create_xoroshiro128p_states init ?N 1, replicate ?N 0))
      = snd (after_launch step (sub_sample_size sample_size) {0..<blocks * threadsperblock}
        (create_xoroshiro128p_states init ?N 1, replicate ?N 0))"
    by (simp only: launch_schedule [OF assms len])
  also have "\<dots> = map (\<lambda>c. float32 (of_int c)) (cell_counts init step sample_size)"
    by (simp add: after_launch_def cell_counts_def create_xoroshiro128p_states_def
        mult.commute comp_def cong: map_cong)
  finally show ?thesis
    by (simp add: gpu_cell_def Let_def split_beta)
qed

text \<open>
  C3: a sampler worker is deterministic. \<open>Sampler.process\<close> creates its generator
  states from the seed of its element and its counters afresh, so what it yields depends
  on the element alone, whatever the order in which the device runs the threads of the
  launch: two executions on the same pair of seed and sample count, in any two orders,
  yield the same counts.
\<close>

theorem Sampler_process_deterministic:
  assumes "schedule_of blocks_per_sampler threadsperblock_per_sampler sched1"
      and "schedule_of blocks_per_sampler threadsperblock_per_sampler sched2"
  shows "Sampler_process init step sched1 (seed, sample_count)
       = Sampler_process init step sched2 (seed, sample_count)"
  by (simp only: Sampler_process_eq [OF assms(1)] Sampler_process_eq [OF assms(2)])

theorem Sampler_process_deterministic_witness:
  "Sampler_process lcg_init lcg_step
       (grid blocks_per_sampler threadsperblock_per_sampler) (7, 4000)
     = Sampler_process lcg_init lcg_step
         (rev (grid blocks_per_sampler threadsperblock_per_sampler)) (7, 4000)"
  using Sampler_process_deterministic
    [of "grid blocks_per_sampler threadsperblock_per_sampler"
        "rev (grid blocks_per_sampler threadsperblock_per_sampler)" lcg_init lcg_step 7 4000]
  by (simp add: schedule_of_grid schedule_of_rev_grid)

section \<open>What a sampler counts\<close>

lemma sum_list_map_bounds:
  fixes f :: "'a \<Rightarrow> int"
  assumes "\<And>x. x \<in> set xs \<Longrightarrow> 0 \<le> f x \<and> f x \<le> b"
  shows "0 \<le> sum_list (map f xs) \<and> sum_list (map f xs) \<le> int (length xs) * b"
  using assms
proof (induction xs)
  case Nil
  show ?case by simp
next
  case (Cons x xs)
  have "0 \<le> f x \<and> f x \<le> b" using Cons.prems by simp
  moreover have "0 \<le> sum_list (map f xs) \<and> sum_list (map f xs) \<le> int (length xs) * b"
    using Cons by simp
  ultimately show ?case by (simp add: algebra_simps)
qed

lemma thread_counts_nonneg: "\<forall>c \<in> set (thread_counts init step seed per_thread). 0 \<le> c"
  by (simp add: thread_counts_def in_circle_count_bounds)

lemma thread_counts_bounds:
  assumes "0 \<le> n"
  shows "0 \<le> sum_list (thread_counts init step seed
                (n div int (threadsperblock_per_sampler * blocks_per_sampler)))
       \<and> sum_list (thread_counts init step seed
                (n div int (threadsperblock_per_sampler * blocks_per_sampler))) \<le> n"
proof -
  let ?N = "threadsperblock_per_sampler * blocks_per_sampler"
  let ?q = "n div int ?N"
  have q: "0 \<le> ?q"
    using assms
    by (simp add: pos_imp_zdiv_nonneg_iff threadsperblock_per_sampler_def blocks_per_sampler_def)
  have b: "0 \<le> in_circle_count 24 step (init seed pos) (nat ?q)
         \<and> in_circle_count 24 step (init seed pos) (nat ?q) \<le> ?q" for pos
    using in_circle_count_bounds [of 24 step "init seed pos" "nat ?q"] q by simp
  have "0 \<le> sum_list (thread_counts init step seed ?q)
      \<and> sum_list (thread_counts init step seed ?q) \<le> int (length [0..<?N]) * ?q"
    unfolding thread_counts_def by (rule sum_list_map_bounds) (rule b)
  moreover have "int (length [0..<?N]) * ?q \<le> n"
  proof -
    have "int ?N * ?q = n - n mod int ?N" by (simp add: minus_mod_eq_mult_div)
    moreover have "0 \<le> n mod int ?N"
      by (simp add: threadsperblock_per_sampler_def blocks_per_sampler_def)
    ultimately show ?thesis by simp
  qed
  ultimately show ?thesis by linarith
qed

lemma thread_counts_no_iteration:
  assumes "per_thread \<le> 0"
  shows "sum_list (thread_counts init step seed per_thread) = 0"
  using assms by (simp add: thread_counts_def in_circle_count_0)

lemma thread_counts_sum_le:
  assumes "n \<le> 2 ^ 24"
  shows "sum_list (thread_counts init step seed
            (n div int (threadsperblock_per_sampler * blocks_per_sampler))) \<le> 2 ^ 24"
proof (cases "0 \<le> n")
  case True
  then show ?thesis
    using thread_counts_bounds [of n init step seed] assms by linarith
next
  case False
  then have "n div int (threadsperblock_per_sampler * blocks_per_sampler) \<le> 0"
    by (simp add: threadsperblock_per_sampler_def blocks_per_sampler_def
        div_nonpos_pos_le0 del: of_nat_mult)
  then show ?thesis by (simp add: thread_counts_no_iteration del: of_nat_mult)
qed

lemma acc_per_sampler_Sampler_process:
  assumes "schedule_of blocks_per_sampler threadsperblock_per_sampler sched"
      and "n \<le> 2 ^ 24"
  shows "acc_per_sampler [Sampler_process init step sched (seed, n)]
     = [sum_list (thread_counts init step seed
          (n div int (threadsperblock_per_sampler * blocks_per_sampler)))]"
  using astype_int_np_sum [OF thread_counts_nonneg thread_counts_sum_le [OF assms(2)],
      of init step seed]
  by (simp add: acc_per_sampler_def Sampler_process_eq [OF assms(1)])

lemma hit_zero_step: "hit p zero_step g i"
  by (simp add: hit_def draw_at_def zero_step_def rne_0)

lemma lcg_count_2: "in_circle_count 24 lcg_step 2 2 = 2"
  by code_simp

lemma lcg_advance_2: "(advance lcg_step ^^ 4) 2 = 6"
  by code_simp

lemma lcg_count_10: "in_circle_count 53 lcg_step 10 2 = 1"
  by code_simp

lemma lcg_advance_10: "(advance lcg_step ^^ 4) 10 = 14"
  by code_simp

lemma float32_2: "float32 2 = 2"
  using float32_of_int [of 2] by simp

lemma float64_estimate_2: "float64 (float64 (4 * float64 1) / float64 2) = 2"
  by code_simp

text \<open>
  C4, as the code has it. The claim says that a worker given a task runs exactly
  \<open>sample_count\<close> iterations and counts the iterations in which the sum of the squares
  of the two draws is below 1. In the code the test is on floating-point values: the
  counter is incremented exactly when the sum of the two squares, each product and the
  sum rounded to the nearest value of the format, is below 1. With that test, the kernel
  thread at \<open>pos\<close> and the native loop run exactly \<open>sample_count\<close> iterations of two
  draws each: the thread advances its generator by \<open>2 * sample_count\<close> draws and stores
  the number of hits, converted to \<open>float32\<close>, at \<open>acc[pos]\<close>, and nothing else changes;
  the native function computes its estimate from the number of hits.
  \<open>Sampler.process\<close>, given a task, runs 1536 threads of
  \<open>sample_count div 1536\<close> iterations each, and yields their counts. That the draws are
  uniform on the unit interval and independent is a property of the generators, which
  are parameters here.
\<close>

theorem sampler_counts_hits:
  assumes "pos < length acc" and "length rng_states = length acc"
      and "schedule_of blocks_per_sampler threadsperblock_per_sampler sched"
  shows "gpu_monte_carlo_pi_sampler step sample_count pos (rng_states, acc)
           = (rng_states[pos := (advance step ^^ (2 * nat sample_count)) (rng_states ! pos)],
              acc[pos := float32 (of_int
                 (in_circle_count 24 step (rng_states ! pos) (nat sample_count)))])
       \<and> python_cpu_monte_carlo_pi random sample_count g
           = (if sample_count = 0 then Inl ZeroDivisionError
              else Inr (float64 (float64 (4 * float64 (of_int
                          (in_circle_count 53 random g (nat sample_count))))
                        / float64 (of_int sample_count))),
              (advance random ^^ (2 * nat sample_count)) g)
       \<and> Sampler_process init step sched (seed, sample_count)
           = map (\<lambda>pos. float32 (of_int (in_circle_count 24 step (init seed pos)
                   (nat (sample_count
                           div int (threadsperblock_per_sampler * blocks_per_sampler))))))
               [0..<threadsperblock_per_sampler * blocks_per_sampler]"
  using assms(1,2)
  by (simp add: gpu_monte_carlo_pi_sampler_eq python_cpu_monte_carlo_pi_eq
      Sampler_process_eq [OF assms(3)] thread_counts_def comp_def del: of_nat_mult)

theorem sampler_counts_hits_witness:
  "gpu_monte_carlo_pi_sampler lcg_step 2 1 ([1, 2, 3], [0, 0, 0]) = ([1, 6, 3], [0, 2, 0])
   \<and> python_cpu_monte_carlo_pi lcg_step 2 10 = (Inr 2, 14)
   \<and> length (Sampler_process lcg_init lcg_step
               (grid blocks_per_sampler threadsperblock_per_sampler) (7, 4000))
       = threadsperblock_per_sampler * blocks_per_sampler"
  using sampler_counts_hits
    [of 1 "[0, 0, 0]" "[1, 2, 3]" "grid blocks_per_sampler threadsperblock_per_sampler"
        lcg_step 2 lcg_step 10 lcg_init 7]
    sampler_counts_hits
    [of 1 "[0, 0, 0]" "[1, 2, 3]" "grid blocks_per_sampler threadsperblock_per_sampler"
        lcg_step 4000 lcg_step 10 lcg_init 7]
  by (simp add: schedule_of_grid lcg_count_2 lcg_advance_2 lcg_count_10 lcg_advance_10
      float32_2 float64_estimate_2 del: of_nat_mult)

lemma float32_16777217: "float32 16777217 = 16777216"
  by code_simp

text \<open>
  The claim of C4 fails on the code. The doubles \<open>1 - 1 / 2 ^ 53\<close> and
  \<open>127331000 / 2 ^ 53\<close> have a sum of squares below 1, but the native loop computes the
  sum as 1.0 and does not count the pair. A task of 1000 samples, on a generator whose
  every pair of draws is a hit, has the count 0: its 1536 threads run no iteration. And
  a kernel thread whose counter ends at 16,777,217 stores 16,777,216.
\<close>

theorem sampler_rounds_and_drops:
  "python_cpu_monte_carlo_pi edge_step 1 0 = (Inr 0, 2)
   \<and> (1 - 1 / 2 ^ 53) * (1 - 1 / 2 ^ 53)
       + (127331000 / 2 ^ 53) * (127331000 / 2 ^ 53) < (1::rat)
   \<and> acc_per_sampler [Sampler_process lcg_init zero_step
         (grid blocks_per_sampler threadsperblock_per_sampler) (0, 1000)] = [0]
   \<and> snd (gpu_monte_carlo_pi_sampler zero_step 16777217 0 ([0], [0])) ! 0 = 16777216"
proof -
  have "snd (gpu_monte_carlo_pi_sampler zero_step 16777217 0 ([0], [0])) ! 0 = 16777216"
  proof -
    have "in_circle_count 24 zero_step 0 (nat 16777217) = 16777217"
      using in_circle_count_all [of 24 zero_step 0 "nat 16777217"]
      by (simp add: hit_zero_step)
    then show ?thesis
      by (simp add: gpu_monte_carlo_pi_sampler_eq float32_16777217)
  qed
  moreover
  have "python_cpu_monte_carlo_pi edge_step 1 0 = (Inr 0, 2)"
    by code_simp
  moreover have "(1 - 1 / 2 ^ 53) * (1 - 1 / 2 ^ 53)
       + (127331000 / 2 ^ 53) * (127331000 / 2 ^ 53) < (1::rat)"
    by simp
  moreover have "acc_per_sampler [Sampler_process lcg_init zero_step
         (grid blocks_per_sampler threadsperblock_per_sampler) (0, 1000)] = [0]"
  proof -
    have "(1000::int) div int (threadsperblock_per_sampler * blocks_per_sampler) \<le> 0"
      by (simp add: threadsperblock_per_sampler_def blocks_per_sampler_def)
    then show ?thesis
      by (simp add: acc_per_sampler_Sampler_process [OF schedule_of_grid]
          thread_counts_no_iteration del: of_nat_mult)
  qed
  ultimately show ?thesis by blast
qed

text \<open>
  C6, as the code has it. The claim says that the count of a task is a non-negative
  integer that never exceeds \<open>sample_count\<close>. For the counter of the native loop, a
  Python integer, this holds for every \<open>sample_count \<ge> 0\<close>. On the device the count is
  stored in a \<open>float32\<close> array and summed in \<open>float32\<close>: for
  \<open>0 \<le> sample_count \<le> 2 ^ 24\<close> the value that a kernel thread stores at its position is
  a non-negative integer that does not exceed \<open>sample_count\<close>, and so is the count of a
  task of the pipeline, which is then the exact sum of the counts of its threads.
\<close>

theorem in_circle_count_within_sample_count:
  assumes "0 \<le> sample_count"
  shows "(0 \<le> fst (python_loop random (nat sample_count) 0 g)
           \<and> fst (python_loop random (nat sample_count) 0 g) \<le> sample_count)
       \<and> (sample_count \<le> 2 ^ 24 \<longrightarrow> pos < length acc \<longrightarrow> length rng_states = length acc \<longrightarrow>
            snd (gpu_monte_carlo_pi_sampler step sample_count pos (rng_states, acc)) ! pos \<in> \<int>
          \<and> 0 \<le> snd (gpu_monte_carlo_pi_sampler step sample_count pos (rng_states, acc)) ! pos
          \<and> snd (gpu_monte_carlo_pi_sampler step sample_count pos (rng_states, acc)) ! pos
               \<le> of_int sample_count)
       \<and> (sample_count \<le> 2 ^ 24 \<longrightarrow>
            schedule_of blocks_per_sampler threadsperblock_per_sampler sched \<longrightarrow>
            acc_per_sampler [Sampler_process init step sched (seed, sample_count)]
              = [sum_list (thread_counts init step seed
                   (sample_count div int (threadsperblock_per_sampler * blocks_per_sampler)))]
          \<and> 0 \<le> sum_list (thread_counts init step seed
                   (sample_count div int (threadsperblock_per_sampler * blocks_per_sampler)))
          \<and> sum_list (thread_counts init step seed
                   (sample_count div int (threadsperblock_per_sampler * blocks_per_sampler)))
               \<le> sample_count)"
proof (intro conjI impI)
  show "0 \<le> fst (python_loop random (nat sample_count) 0 g)"
    and "fst (python_loop random (nat sample_count) 0 g) \<le> sample_count"
    using in_circle_count_bounds [of 53 random g "nat sample_count"] assms
    by (simp_all add: python_loop_count)
  {
    assume b: "sample_count \<le> 2 ^ 24"
      and p: "pos < length acc" and l: "length rng_states = length acc"
    let ?c = "in_circle_count 24 step (rng_states ! pos) (nat sample_count)"
    have c: "0 \<le> ?c" "?c \<le> sample_count"
      using in_circle_count_bounds [of 24 step "rng_states ! pos" "nat sample_count"] assms
      by simp_all
    then have "float32 (of_int ?c) = of_int ?c"
      using b by (intro float32_of_int) simp_all
    then have e: "snd (gpu_monte_carlo_pi_sampler step sample_count pos (rng_states, acc)) ! pos
        = of_int ?c"
      using p l by (simp add: gpu_monte_carlo_pi_sampler_eq)
    show "snd (gpu_monte_carlo_pi_sampler step sample_count pos (rng_states, acc)) ! pos \<in> \<int>"
      and "0 \<le> snd (gpu_monte_carlo_pi_sampler step sample_count pos (rng_states, acc)) ! pos"
      and "snd (gpu_monte_carlo_pi_sampler step sample_count pos (rng_states, acc)) ! pos
            \<le> of_int sample_count"
      unfolding e using c by simp_all
  }
  {
    assume b: "sample_count \<le> 2 ^ 24"
      and s: "schedule_of blocks_per_sampler threadsperblock_per_sampler sched"
    show "acc_per_sampler [Sampler_process init step sched (seed, sample_count)]
        = [sum_list (thread_counts init step seed
             (sample_count div int (threadsperblock_per_sampler * blocks_per_sampler)))]"
      by (rule acc_per_sampler_Sampler_process [OF s b])
    show "0 \<le> sum_list (thread_counts init step seed
             (sample_count div int (threadsperblock_per_sampler * blocks_per_sampler)))"
      and "sum_list (thread_counts init step seed
             (sample_count div int (threadsperblock_per_sampler * blocks_per_sampler)))
           \<le> sample_count"
      using thread_counts_bounds [OF assms, of init step seed] by simp_all
  }
qed

theorem in_circle_count_within_sample_count_witness:
  "0 \<le> fst (python_loop lcg_step (nat 4000) 0 10)
   \<and> fst (python_loop lcg_step (nat 4000) 0 10) \<le> 4000
   \<and> 0 \<le> snd (gpu_monte_carlo_pi_sampler lcg_step 4000 1 ([1, 2, 3], [0, 0, 0])) ! 1
   \<and> snd (gpu_monte_carlo_pi_sampler lcg_step 4000 1 ([1, 2, 3], [0, 0, 0])) ! 1 \<le> 4000
   \<and> acc_per_sampler [Sampler_process lcg_init lcg_step
         (grid blocks_per_sampler threadsperblock_per_sampler) (7, 4000)]
       = [sum_list (thread_counts lcg_init lcg_step 7
            (4000 div int (threadsperblock_per_sampler * blocks_per_sampler)))]
   \<and> sum_list (thread_counts lcg_init lcg_step 7
         (4000 div int (threadsperblock_per_sampler * blocks_per_sampler))) \<le> 4000"
  using in_circle_count_within_sample_count
    [of 4000 lcg_step 10 1 "[0, 0, 0]" "[1, 2, 3]" lcg_step
        "grid blocks_per_sampler threadsperblock_per_sampler" lcg_init 7]
  by (simp add: schedule_of_grid del: of_nat_mult)

lemma float32_16777219: "float32 16777219 = 16777220"
  by code_simp

text \<open>
  The claim of C6 fails on the code beyond \<open>2 ^ 24\<close>: a kernel thread with 16,777,219
  iterations whose every pair of draws is a hit counts 16,777,219 and stores
  16,777,220, the nearest \<open>float32\<close>.
\<close>

theorem float32_count_exceeds_sample_count:
  "snd (gpu_monte_carlo_pi_sampler zero_step 16777219 0 ([0], [0])) ! 0 = 16777220"
proof -
  have "in_circle_count 24 zero_step 0 (nat 16777219) = 16777219"
    using in_circle_count_all [of 24 zero_step 0 "nat 16777219"]
    by (simp add: hit_zero_step)
  then show ?thesis
    by (simp add: gpu_monte_carlo_pi_sampler_eq float32_16777219)
qed

section \<open>The estimate\<close>

lemma acc_per_sampler_eq:
  assumes "\<And>e. schedule_of blocks_per_sampler threadsperblock_per_sampler (sched_for e)"
      and "c \<le> 2 ^ 24"
  shows "acc_per_sampler (samplers_per_gpu_thread init step sched_for (elements sampler_count c))
     = map (\<lambda>seed. sum_list (thread_counts init step seed
               (c div int (threadsperblock_per_sampler * blocks_per_sampler))))
         [0..sampler_count - 1]"
proof -
  have "astype_int (np_sum (Sampler_process init step (sched_for (seed, c)) (seed, c)))
      = sum_list (thread_counts init step seed
           (c div int (threadsperblock_per_sampler * blocks_per_sampler)))" for seed
    using acc_per_sampler_Sampler_process
      [OF assms(1) [of "(seed, c)"] assms(2), where init = init and step = step and seed = seed]
    by (simp add: acc_per_sampler_def)
  then show ?thesis
    by (simp add: acc_per_sampler_def samplers_per_gpu_thread_def elements_def comp_def
        del: of_nat_mult)
qed

lemma run_pipeline_eq:
  assumes "sampler_count \<noteq> 0"
      and "\<And>e. schedule_of blocks_per_sampler threadsperblock_per_sampler (sched_for e)"
      and "\<And>xs. mset (concat (bundle xs)) = mset xs"
      and "sample_size div sampler_count \<le> 2 ^ 24"
  shows "run_pipeline init step sched_for bundle sample_size sampler_count
     = print_pi sample_size (total_in_circle init step sample_size sampler_count)"
proof -
  have "run_pipeline init step sched_for bundle sample_size sampler_count
      = print_pi sample_size (sum_acc bundle (acc_per_sampler
          (samplers_per_gpu_thread init step sched_for
             (elements sampler_count (sample_size div sampler_count)))))"
    using assms(1) by (simp add: run_pipeline_def tasks_Inr)
  also have "\<dots> = print_pi sample_size (total_in_circle init step sample_size sampler_count)"
    by (simp only: sum_acc_eq [OF assms(3)] acc_per_sampler_eq [OF assms(2) assms(4)]
        total_in_circle_def)
  finally show ?thesis .
qed

lemma run_pipeline_no_samplers:
  "run_pipeline init step sched_for bundle sample_size 0 = Inl ZeroDivisionError"
  by (simp add: run_pipeline_def tasks_Inl)

lemma total_in_circle_no_samples:
  assumes "0 \<le> sample_size" and "sample_size < sampler_count"
  shows "total_in_circle init step sample_size sampler_count = 0"
proof -
  have "sample_size div sampler_count = 0"
    using assms by (simp add: div_pos_pos_trivial)
  then show ?thesis
    by (simp add: total_in_circle_def thread_counts_def in_circle_count_0)
qed

lemma print_pi_0: "sample_size \<noteq> 0 \<Longrightarrow> print_pi sample_size 0 = Inr 0"
  by (simp add: print_pi_def float64_def rne_0)

lemma cell_counts_nonneg: "\<forall>c \<in> set (cell_counts init step sample_size). 0 \<le> c"
  by (simp add: cell_counts_def in_circle_count_bounds)

lemma cell_counts_bounds:
  assumes "0 \<le> n"
  shows "sum_list (cell_counts init step n) \<le> n"
proof -
  let ?N = "threadsperblock * blocks"
  let ?q = "sub_sample_size n"
  have q: "0 \<le> ?q"
    using assms
    by (simp add: sub_sample_size_def pos_imp_zdiv_nonneg_iff threadsperblock_def blocks_def)
  have b: "0 \<le> in_circle_count 24 step (init 1 pos) (nat ?q)
         \<and> in_circle_count 24 step (init 1 pos) (nat ?q) \<le> ?q" for pos
    using in_circle_count_bounds [of 24 step "init 1 pos" "nat ?q"] q by simp
  have "0 \<le> sum_list (cell_counts init step n)
      \<and> sum_list (cell_counts init step n) \<le> int (length [0..<?N]) * ?q"
    unfolding cell_counts_def by (rule sum_list_map_bounds) (rule b)
  moreover have "int (length [0..<?N]) * ?q \<le> n"
  proof -
    have "int ?N * ?q = n - n mod int ?N"
      by (simp add: sub_sample_size_def minus_mod_eq_mult_div)
    moreover have "0 \<le> n mod int ?N"
      by (simp add: threadsperblock_def blocks_def)
    ultimately show ?thesis by simp
  qed
  ultimately show ?thesis by linarith
qed

lemma calculate_pi_exact:
  assumes "\<forall>c \<in> set cs. 0 \<le> c" and "sum_list cs \<le> n" and "0 < n" and "n \<le> 2 ^ 24"
  shows "calculate_pi (map (\<lambda>c. float32 (of_int c)) cs) n
     = Inr (float64 (4 * of_int (sum_list cs) / of_int n))"
proof -
  have le: "sum_list cs \<le> 2 ^ 24" using assms(2,4) by simp
  have nn: "0 \<le> sum_list cs" using assms(1) by (intro sum_list_nonneg) simp
  have s: "np_sum (map (\<lambda>c. float32 (of_int c)) cs) = of_int (sum_list cs)"
    by (simp only: float32_counts [OF assms(1) le] np_sum_exact [OF assms(1) le])
  have "float64 (of_int (4 * sum_list cs)) = of_int (4 * sum_list cs)"
    using nn le by (intro float64_of_int) simp_all
  then have f: "float64 (4 * of_int (sum_list cs)) = 4 * of_int (sum_list cs)"
    by simp
  have g: "float64 (of_int n) = of_int n"
    using assms(3,4) by (intro float64_of_int) simp_all
  show ?thesis
    using assms(3) by (simp add: calculate_pi_def s f g)
qed

text \<open>
  C2, as the code has it. The claim says that the estimate is the formula
  \<open>4 * total_in_circle / total_samples\<close> applied to the exact aggregated count. The code
  holds the counts of the threads in \<open>float32\<close> and sums them in \<open>float32\<close>, which is
  exact up to \<open>2 ^ 24\<close>. In the pipeline, when no sampler has more than \<open>2 ^ 24\<close> samples
  and \<open>sample_size\<close> and \<open>sampler_count\<close> are not zero, the estimate is the double
  nearest to \<open>4 * total_in_circle / sample_size\<close>, where \<open>total_in_circle\<close> is the exact
  sum of the counts of all threads of all samplers, in whatever order the device runs the
  threads of each launch and however the runner bundles the partial counts. In the cell
  that runs the kernel directly, \<open>calculate_pi\<close> returns the double nearest to
  \<open>4 * total / sample_size\<close> for the exact sum of the counts of the threads when
  \<open>0 < sample_size \<le> 2 ^ 24\<close>.
\<close>

theorem run_pipeline_estimate:
  assumes "sample_size \<noteq> 0" and "sampler_count \<noteq> 0"
      and "\<forall>e. schedule_of blocks_per_sampler threadsperblock_per_sampler (sched_for e)"
      and "\<forall>xs. mset (concat (bundle xs)) = mset xs"
      and "sample_size div sampler_count \<le> 2 ^ 24"
  shows "run_pipeline init step sched_for bundle sample_size sampler_count
           = Inr (float64 (4 * of_int (total_in_circle init step sample_size sampler_count)
                    / of_int sample_size))
       \<and> (0 < sample_size \<longrightarrow> sample_size \<le> 2 ^ 24 \<longrightarrow>
            schedule_of blocks threadsperblock sched \<longrightarrow>
            gpu_cell init step sched sample_size
              = Inr (float64 (4 * of_int (sum_list (cell_counts init step sample_size))
                       / of_int sample_size)))"
proof (intro conjI impI)
  have "run_pipeline init step sched_for bundle sample_size sampler_count
     = print_pi sample_size (total_in_circle init step sample_size sampler_count)"
    using assms(2-5) by (intro run_pipeline_eq) blast+
  then show "run_pipeline init step sched_for bundle sample_size sampler_count
           = Inr (float64 (4 * of_int (total_in_circle init step sample_size sampler_count)
                    / of_int sample_size))"
    using assms(1) by (simp add: print_pi_def)
next
  assume p: "0 < sample_size" and b: "sample_size \<le> 2 ^ 24"
    and s: "schedule_of blocks threadsperblock sched"
  have "sum_list (cell_counts init step sample_size) \<le> sample_size"
    using p by (intro cell_counts_bounds) simp
  then show "gpu_cell init step sched sample_size
      = Inr (float64 (4 * of_int (sum_list (cell_counts init step sample_size))
               / of_int sample_size))"
    unfolding gpu_cell_eq [OF s]
    using p b by (intro calculate_pi_exact cell_counts_nonneg)
qed

theorem run_pipeline_estimate_witness:
  "run_pipeline lcg_init lcg_step in_grid_order split_bundles 6144 2
     = Inr (float64 (4 * of_int (total_in_circle lcg_init lcg_step 6144 2) / of_int 6144))
   \<and> gpu_cell lcg_init lcg_step (grid blocks threadsperblock) 6144
     = Inr (float64 (4 * of_int (sum_list (cell_counts lcg_init lcg_step 6144)) / of_int 6144))"
  using run_pipeline_estimate
    [of 6144 2 in_grid_order split_bundles lcg_init lcg_step "grid blocks threadsperblock"]
  by (simp add: schedule_of_in_grid_order split_bundles_mset schedule_of_grid)

text \<open>
  The claim of C2 fails on the code beyond \<open>2 ^ 24\<close>: for the counts 16,777,216 and 1
  of two threads, \<open>np.sum\<close> returns 16,777,216, so that a sampler of the pipeline reports
  16,777,216 and \<open>calculate_pi\<close>, for 33,554,432 samples, returns 2, which is not the
  formula on the exact count 16,777,217. And the estimate is a double: for one hit in
  three samples the pipeline prints the double nearest to 4/3.
\<close>

theorem calculate_pi_loses_counts:
  "calculate_pi [16777216, 1] 33554432 = Inr 2
   \<and> float64 (4 * (16777216 + 1) / 33554432) \<noteq> 2
   \<and> acc_per_sampler [[16777216, 1]] = [16777216]
   \<and> print_pi 3 1 \<noteq> Inr (4 / 3)"
  by code_simp

text \<open>
  C7, as the code has it. The claim says that a run with no sampler, no sample, or
  more samplers than samples fails with \<open>InvalidConfiguration\<close> before any task
  exists. The code does not validate its configuration. With \<open>sampler_count = 0\<close> the
  division that computes the sample size of a sampler raises \<open>ZeroDivisionError\<close>, before
  any task exists. With \<open>sample_size = 0\<close> and a positive \<open>sampler_count\<close>, the run
  creates \<open>sampler_count\<close> tasks of 0 samples, and the final division raises
  \<open>ZeroDivisionError\<close>: there is no estimate. With \<open>0 < sample_size < sampler_count\<close>,
  the run creates \<open>sampler_count\<close> tasks of 0 samples and returns the estimate 0.
\<close>

theorem run_pipeline_degenerate:
  assumes "\<forall>e. schedule_of blocks_per_sampler threadsperblock_per_sampler (sched_for e)"
      and "\<forall>xs. mset (concat (bundle xs)) = mset xs"
  shows "tasks sample_size 0 = Inl ZeroDivisionError
       \<and> run_pipeline init step sched_for bundle sample_size 0 = Inl ZeroDivisionError
       \<and> (0 < sampler_count \<longrightarrow>
            tasks 0 sampler_count = Inr (elements sampler_count 0)
          \<and> length (elements sampler_count 0) = nat sampler_count
          \<and> run_pipeline init step sched_for bundle 0 sampler_count = Inl ZeroDivisionError)
       \<and> (0 < sample_size \<and> sample_size < sampler_count \<longrightarrow>
            tasks sample_size sampler_count = Inr (elements sampler_count 0)
          \<and> length (elements sampler_count 0) = nat sampler_count
          \<and> run_pipeline init step sched_for bundle sample_size sampler_count = Inr 0)"
proof -
  have eq: "run_pipeline init step sched_for bundle s c
      = print_pi s (total_in_circle init step s c)" if "c \<noteq> 0" and "s div c = 0" for s c
    using that assms by (intro run_pipeline_eq) (simp, blast, blast, simp)
  have a: "tasks 0 sampler_count = Inr (elements sampler_count 0)
      \<and> run_pipeline init step sched_for bundle 0 sampler_count = Inl ZeroDivisionError"
    if "0 < sampler_count"
    using that eq [of sampler_count 0] by (simp add: tasks_Inr print_pi_def)
  have b: "tasks sample_size sampler_count = Inr (elements sampler_count 0)
      \<and> run_pipeline init step sched_for bundle sample_size sampler_count = Inr 0"
    if "0 < sample_size" and "sample_size < sampler_count"
  proof -
    have d: "sample_size div sampler_count = 0"
      using that by (simp add: div_pos_pos_trivial)
    moreover have "total_in_circle init step sample_size sampler_count = 0"
      using that by (intro total_in_circle_no_samples) simp_all
    ultimately show ?thesis
      using that eq [of sampler_count sample_size] by (simp add: tasks_Inr print_pi_0)
  qed
  show ?thesis
    using a b by (simp add: tasks_Inl run_pipeline_no_samplers length_elements)
qed

theorem run_pipeline_degenerate_witness:
  "tasks 2 0 = Inl ZeroDivisionError
   \<and> run_pipeline lcg_init lcg_step in_grid_order one_bundle 2 0 = Inl ZeroDivisionError
   \<and> tasks 0 3 = Inr (elements 3 0)
   \<and> length (elements 3 0) = 3
   \<and> run_pipeline lcg_init lcg_step in_grid_order one_bundle 0 3 = Inl ZeroDivisionError
   \<and> tasks 2 3 = Inr (elements 3 0)
   \<and> run_pipeline lcg_init lcg_step in_grid_order one_bundle 2 3 = Inr 0"
  using run_pipeline_degenerate [of in_grid_order one_bundle 2 lcg_init lcg_step 3]
  by (simp add: schedule_of_in_grid_order one_bundle_mset)

text \<open>
  The claim of C7 fails on the code: a run of 2 samples over 3 samplers creates three
  tasks and returns an estimate.
\<close>

theorem run_pipeline_more_samplers_than_samples:
  "tasks 2 3 = Inr [(0, 0), (1, 0), (2, 0)]
   \<and> run_pipeline lcg_init lcg_step in_grid_order one_bundle 2 3 = Inr 0"
proof -
  have "tasks 2 3 = Inr [(0, 0), (1, 0), (2, 0)]"
    by (simp add: tasks_def sample_size_per_sampler_def elements_def upto.simps)
  moreover have "run_pipeline lcg_init lcg_step in_grid_order one_bundle 2 3
      = print_pi 2 (total_in_circle lcg_init lcg_step 2 3)"
    by (rule run_pipeline_eq) (simp_all add: schedule_of_in_grid_order one_bundle_mset)
  moreover have "total_in_circle lcg_init lcg_step 2 3 = 0"
    by (rule total_in_circle_no_samples) simp_all
  ultimately show ?thesis by (simp add: print_pi_0)
qed

end
